theory Spec2Isabelle
  imports Main "HOL-Library.AList"
begin

section \<open>Data model\<close>

text \<open>
  A cell of a table. \<open>VNaN\<close> is a missing value (pandas' NaN / None). \<open>VFloat\<close> carries a
  number that is not a plain 64-bit integer literal; floating point is not modelled, so its
  payload is a type parameter and the parser that produces it is a parameter of the model.
\<close>

datatype 'f val = VInt int | VFloat 'f | VStr string | VNaN

text \<open>
  A DataFrame is an ordered collection of named columns, every column a list of cells (one
  per row, so all columns of a frame have the same length). Row labels are left out:
  \<open>pd.merge\<close> gives its result the fresh labels \<open>0..n-1\<close>, the expanded categories frame
  inherits them, and no other step of \<open>process_data.py\<close> looks at a label.
\<close>

type_synonym 'f frame = "(string \<times> 'f val list) list"

datatype error =
  KeyError | AttributeError | IndexError | TypeError | ValueError | MergeError
  | FileNotFoundError

definition columns :: "'f frame \<Rightarrow> string list" where
  "columns df = map fst df"

definition nrows :: "'f frame \<Rightarrow> nat" where
  "nrows df = (case df of [] \<Rightarrow> 0 | (_, vs) # _ \<Rightarrow> length vs)"

text \<open>Every column of a DataFrame has the same length.\<close>

definition rectangular :: "'f frame \<Rightarrow> bool" where
  "rectangular df = list_all (\<lambda>c. length (snd c) = nrows df) df"

text \<open>The rows of a frame, each the list of its cells in column order.\<close>

fun rows_of :: "'f frame \<Rightarrow> 'f val list list" where
  "rows_of [] = []"
| "rows_of [(n, vs)] = map (\<lambda>v. [v]) vs"
| "rows_of ((n, vs) # c # df) = map2 (#) vs (rows_of (c # df))"

text \<open>
  \<open>df[name]\<close>: KeyError when no column has the label; with one such column, the column;
  with several, pandas returns a DataFrame, on which the \<open>.str\<close> accessor used right after
  every \<open>df[name]\<close> of this program does not exist (AttributeError).
\<close>

definition getitem :: "'f frame \<Rightarrow> string \<Rightarrow> error + 'f val list" where
  "getitem df name =
     (case filter (\<lambda>c. fst c = name) df of
        [] \<Rightarrow> Inl KeyError
      | [c] \<Rightarrow> Inr (snd c)
      | _ \<Rightarrow> Inl AttributeError)"

section \<open>Strings\<close>

text \<open>Python's \<open>s.split(sep)\<close> for a one-character separator: never an empty list.\<close>

fun str_split :: "char \<Rightarrow> string \<Rightarrow> string list" where
  "str_split sep [] = [[]]"
| "str_split sep (x # xs) =
     (if x = sep then [] # str_split sep xs
      else (case str_split sep xs of t # ts \<Rightarrow> (x # t) # ts | [] \<Rightarrow> [[x]]))"

text \<open>
  Python's \<open>s.replace(pat, repl)\<close>: every non-overlapping occurrence, left to right. The
  pattern of this program, \<open>column + "-"\<close>, is never empty; for an empty pattern the
  string is returned as it is. The pattern is read literally, as \<open>Series.str.replace\<close>
  does by default since pandas 2.0; earlier versions read it as a regular expression, which
  is the same thing for a name made of letters, digits and underscores.
\<close>

function str_replace :: "string \<Rightarrow> string \<Rightarrow> string \<Rightarrow> string" where
  "str_replace pat repl [] = []"
| "str_replace pat repl (x # xs) =
     (if pat \<noteq> [] \<and> take (length pat) (x # xs) = pat
      then repl @ str_replace pat repl (drop (length pat) (x # xs))
      else x # str_replace pat repl xs)"
  by pat_completeness auto
termination
  by (relation "measure (\<lambda>(pat, repl, s). length s)") auto

text \<open>The slice \<open>s[:-2]\<close>: all but the last two characters, empty for a shorter string.\<close>

definition slice_to_minus2 :: "string \<Rightarrow> string" where
  "slice_to_minus2 s = take (length s - 2) s"

definition decimal_digits :: string where
  "decimal_digits = ''0123456789''"

fun position :: "'a \<Rightarrow> 'a list \<Rightarrow> nat option" where
  "position x [] = None"
| "position x (y # ys) = (if x = y then Some 0 else map_option Suc (position x ys))"

definition digit_of :: "char \<Rightarrow> nat option" where
  "digit_of c = position c decimal_digits"

fun nat_of_digits :: "nat \<Rightarrow> string \<Rightarrow> nat option" where
  "nat_of_digits acc [] = Some acc"
| "nat_of_digits acc (c # cs) =
     (case digit_of c of None \<Rightarrow> None | Some d \<Rightarrow> nat_of_digits (10 * acc + d) cs)"

text \<open>
  A plain integer literal (an optional sign, then one or more decimal digits) whose value
  fits a signed 64-bit integer: what \<open>pd.to_numeric\<close> turns into an int64.
\<close>

definition int_literal :: "string \<Rightarrow> int option" where
  "int_literal s =
     (let r = (case s of
                 [] \<Rightarrow> None
               | c # cs \<Rightarrow>
                   if c = CHR ''-'' then
                     (if cs = [] then None else map_option (\<lambda>n. - int n) (nat_of_digits 0 cs))
                   else if c = CHR ''+'' then
                     (if cs = [] then None else map_option int (nat_of_digits 0 cs))
                   else map_option int (nat_of_digits 0 s))
      in case r of
           None \<Rightarrow> None
         | Some i \<Rightarrow> if - (2 ^ 63) \<le> i \<and> i < 2 ^ 63 then Some i else None)"



section \<open>The pandas operations of \<open>clean_data\<close>\<close>

subsection \<open>\<open>pd.merge(left, right, on=key)\<close>\<close>

text \<open>
  The default inner join: the pairs of row positions whose key cells are equal, in the
  order of the left rows and, for one left row, of the right rows. Missing keys match each
  other, as they do in pandas.
\<close>

definition join_indexers :: "'f val list \<Rightarrow> 'f val list \<Rightarrow> (nat \<times> nat) list" where
  "join_indexers kl kr =
     concat (map (\<lambda>i. map (\<lambda>j. (i, j)) (filter (\<lambda>j. kr ! j = kl ! i) [0..<length kr]))
                 [0..<length kl])"

text \<open>
  The result has the columns of the left frame, then those of the right frame without the
  key. A label other than the key that both frames have gets the suffixes \<open>_x\<close> and
  \<open>_y\<close>; a result with a repeated label is refused (the frames \<open>pd.read_csv\<close> makes have
  none). KeyError when a frame has no key column, ValueError when it has several.
\<close>

definition key_column :: "'f frame \<Rightarrow> string \<Rightarrow> error + 'f val list" where
  "key_column df key =
     (case filter (\<lambda>c. fst c = key) df of
        [] \<Rightarrow> Inl KeyError
      | [c] \<Rightarrow> Inr (snd c)
      | _ \<Rightarrow> Inl ValueError)"

definition pd_merge :: "'f frame \<Rightarrow> 'f frame \<Rightarrow> string \<Rightarrow> error + 'f frame" where
  "pd_merge left right key =
     (case key_column left key of
        Inl e \<Rightarrow> Inl e
      | Inr kl \<Rightarrow>
          (case key_column right key of
             Inl e \<Rightarrow> Inl e
           | Inr kr \<Rightarrow>
               (let pairs = join_indexers kl kr;
                    lname = (\<lambda>n. if n \<noteq> key \<and> n \<in> set (columns right) then n @ ''_x'' else n);
                    rname = (\<lambda>n. if n \<in> set (columns left) then n @ ''_y'' else n);
                    out = map (\<lambda>(n, vs). (lname n, map (\<lambda>(i, j). vs ! i) pairs)) left
                        @ map (\<lambda>(n, vs). (rname n, map (\<lambda>(i, j). vs ! j) pairs))
                              (filter (\<lambda>c. fst c \<noteq> key) right)
                in if distinct (columns out) then Inr out else Inl MergeError)))"

subsection \<open>\<open>series.str.split(";", expand=True)\<close>\<close>

text \<open>The tokens of one cell; a cell that is not a string has none.\<close>

definition tokens_of :: "'f val \<Rightarrow> string list" where
  "tokens_of v = (case v of VStr s \<Rightarrow> str_split CHR '';'' s | _ \<Rightarrow> [])"

definition is_str :: "'f val \<Rightarrow> bool" where
  "is_str v = (case v of VStr _ \<Rightarrow> True | _ \<Rightarrow> False)"

text \<open>
  The expanded frame, as the list of its columns in positional order: as many columns as
  the longest row has tokens, shorter rows padded with missing values. The \<open>.str\<close>
  accessor exists only on a column of strings: a non-empty column without any string has a
  numeric dtype and raises AttributeError.
\<close>

definition str_split_expand :: "'f val list \<Rightarrow> error + 'f val list list" where
  "str_split_expand series =
     (if series \<noteq> [] \<and> \<not> list_ex is_str series then Inl AttributeError
      else
        (let toks = map tokens_of series;
             width = fold max (map length toks) 0
         in Inr (map (\<lambda>j. map (\<lambda>ts. if j < length ts then VStr (ts ! j) else VNaN) toks)
                     [0..<width])))"

subsection \<open>Lines 40 to 48: the new column names\<close>

text \<open>
  \<open>categories.iloc[0]\<close> is the first row of the expanded frame (IndexError when there is
  none). \<open>row.str.split(";")\<close> makes a one-element list of every token and leaves a missing
  cell missing; \<open>cat[0][:-2]\<close> then fails on a missing cell (TypeError) and cuts the last
  two characters off a token.
\<close>

definition iloc0 :: "'f val list list \<Rightarrow> error + 'f val list" where
  "iloc0 cols = (if cols = [] \<or> list_ex (\<lambda>c. c = []) cols then Inl IndexError
                 else Inr (map hd cols))"

fun new_cat_list :: "'f val list \<Rightarrow> error + string list" where
  "new_cat_list [] = Inr []"
| "new_cat_list (cat # cats) =
     (case cat of
        VStr tok \<Rightarrow>
          (case new_cat_list cats of
             Inl e \<Rightarrow> Inl e
           | Inr names \<Rightarrow> Inr (slice_to_minus2 tok # names))
      | _ \<Rightarrow> Inl TypeError)"

subsection \<open>Lines 56 to 60: the conversion loop\<close>

definition str_replace_cell :: "string \<Rightarrow> string \<Rightarrow> 'f val \<Rightarrow> 'f val" where
  "str_replace_cell pat repl v = (case v of VStr s \<Rightarrow> VStr (str_replace pat repl s) | _ \<Rightarrow> VNaN)"

text \<open>
  \<open>pd.to_numeric\<close> on one cell: a missing cell and the empty string become NaN, an
  integer literal becomes that integer, any other string is left to \<open>parse_float\<close>, the
  parameter standing for pandas' parser of every other numeric form; where it gives
  nothing the string is not a number and ValueError is raised. pandas stores a converted
  column that holds a missing value or a non-integer as floats; here each integer cell stays
  the integer it was read as.
\<close>

definition to_numeric_cell :: "(string \<Rightarrow> 'f option) \<Rightarrow> 'f val \<Rightarrow> error + 'f val" where
  "to_numeric_cell parse_float v =
     (case v of
        VStr s \<Rightarrow>
          (if s = [] then Inr VNaN
           else (case int_literal s of
                   Some i \<Rightarrow> Inr (VInt i)
                 | None \<Rightarrow>
                     (case parse_float s of
                        Some f \<Rightarrow> Inr (VFloat f)
                      | None \<Rightarrow> Inl ValueError)))
      | _ \<Rightarrow> Inr v)"

fun to_numeric :: "(string \<Rightarrow> 'f option) \<Rightarrow> 'f val list \<Rightarrow> error + 'f val list" where
  "to_numeric parse_float [] = Inr []"
| "to_numeric parse_float (v # vs) =
     (case to_numeric_cell parse_float v of
        Inl e \<Rightarrow> Inl e
      | Inr x \<Rightarrow>
          (case to_numeric parse_float vs of
             Inl e \<Rightarrow> Inl e
           | Inr xs \<Rightarrow> Inr (x # xs)))"

text \<open>
  \<open>for column in categories\<close> runs over the labels of the renamed frame; each round reads
  the column, removes every \<open>column + "-"\<close> from its strings, converts it and stores it
  back under the same label.
\<close>

fun convert_columns ::
  "(string \<Rightarrow> 'f option) \<Rightarrow> string list \<Rightarrow> 'f frame \<Rightarrow> error + 'f frame" where
  "convert_columns parse_float [] categories = Inr categories"
| "convert_columns parse_float (column # rest) categories =
     (case getitem categories column of
        Inl e \<Rightarrow> Inl e
      | Inr series \<Rightarrow>
          (case to_numeric parse_float (map (str_replace_cell (column @ ''-'') []) series) of
             Inl e \<Rightarrow> Inl e
           | Inr nums \<Rightarrow>
               convert_columns parse_float rest (AList.update column nums categories)))"

subsection \<open>Lines 63 to 71: drop, assign, deduplicate\<close>

text \<open>\<open>df.drop(columns=[name])\<close>: KeyError when there is no such column.\<close>

definition drop_column :: "'f frame \<Rightarrow> string \<Rightarrow> error + 'f frame" where
  "drop_column df name =
     (if name \<in> set (columns df) then Inr (AList.delete name df) else Inl KeyError)"

text \<open>
  \<open>df[value.columns] = value\<close> assigns the columns of \<open>value\<close> one by one, in order:
  a label \<open>df\<close> already has keeps its place and gets the new cells, a new label is added
  after the last column.
\<close>

definition setitem_frame :: "'f frame \<Rightarrow> 'f frame \<Rightarrow> 'f frame" where
  "setitem_frame df val = fold (\<lambda>c d. AList.update (fst c) (snd c) d) val df"

text \<open>
  \<open>duplicated()\<close> marks every row that is equal, in all columns, to an earlier row;
  \<open>drop_duplicates()\<close> keeps the unmarked rows of every column.
\<close>

fun duplicated_from :: "'a list \<Rightarrow> 'a list \<Rightarrow> bool list" where
  "duplicated_from seen [] = []"
| "duplicated_from seen (r # rs) = (r \<in> set seen) # duplicated_from (r # seen) rs"

definition duplicated :: "'f frame \<Rightarrow> bool list" where
  "duplicated df = duplicated_from [] (rows_of df)"

definition keep_unmarked :: "bool list \<Rightarrow> 'a list \<Rightarrow> 'a list" where
  "keep_unmarked marks xs = map snd (filter (\<lambda>p. \<not> fst p) (zip marks xs))"

definition drop_duplicates :: "'f frame \<Rightarrow> 'f frame" where
  "drop_duplicates df = map (\<lambda>(n, vs). (n, keep_unmarked (duplicated df) vs)) df"

section \<open>\<open>clean_data\<close>\<close>

text \<open>Lines 36 to 60: the expanded, renamed and converted categories frame.\<close>

definition expand_categories ::
  "(string \<Rightarrow> 'f option) \<Rightarrow> 'f val list \<Rightarrow> error + 'f frame" where
  "expand_categories parse_float series =
     (case str_split_expand series of
        Inl e \<Rightarrow> Inl e
      | Inr cols \<Rightarrow>
          (case iloc0 cols of
             Inl e \<Rightarrow> Inl e
           | Inr row \<Rightarrow>
               (case new_cat_list row of
                  Inl e \<Rightarrow> Inl e
                | Inr names \<Rightarrow> convert_columns parse_float names (zip names cols))))"

text \<open>Lines 33 to 66: the frame before duplicates are removed.\<close>

definition merge_and_expand ::
  "(string \<Rightarrow> 'f option) \<Rightarrow> 'f frame \<Rightarrow> 'f frame \<Rightarrow> error + 'f frame" where
  "merge_and_expand parse_float messages categories =
     (case pd_merge messages categories ''id'' of
        Inl e \<Rightarrow> Inl e
      | Inr df \<Rightarrow>
          (case getitem df ''categories'' of
             Inl e \<Rightarrow> Inl e
           | Inr series \<Rightarrow>
               (case expand_categories parse_float series of
                  Inl e \<Rightarrow> Inl e
                | Inr cats \<Rightarrow>
                    (case drop_column df ''categories'' of
                       Inl e \<Rightarrow> Inl e
                     | Inr df' \<Rightarrow> Inr (setitem_frame df' cats)))))"


definition clean_data ::
  "(string \<Rightarrow> 'f option) \<Rightarrow> 'f frame \<Rightarrow> 'f frame \<Rightarrow> error + 'f frame" where
  "clean_data parse_float messages categories =
     (case merge_and_expand parse_float messages categories of
        Inl e \<Rightarrow> Inl e
      | Inr df \<Rightarrow> Inr (drop_duplicates df))"

section \<open>Loader, writer and \<open>main\<close>\<close>

text \<open>
  What the program touches outside its own memory: the delimited text files (each path
  mapped to the frame \<open>pd.read_csv\<close> makes of it, the parsing of the text left out), the
  SQLite files (each path mapped to its tables), the lines printed, and a log of every file
  operation performed.
\<close>

datatype io_event = ReadCsv string | ToSql string string

record 'f world =
  csv_files :: "string \<Rightarrow> 'f frame option"
  databases :: "string \<Rightarrow> (string \<Rightarrow> 'f frame option) option"
  stdout :: "string list"
  io_log :: "io_event list"

definition print :: "string \<Rightarrow> 'f world \<Rightarrow> 'f world" where
  "print line w = w\<lparr>stdout := stdout w @ [line]\<rparr>"




text \<open>
  \<open>df.to_sql(name, engine, if_exists=...)\<close> on the database file at a path, which is
  created when it does not exist. On a table that is already there, \<open>fail\<close> raises,
  \<open>replace\<close> puts the frame in its place and \<open>append\<close> adds the rows of the frame
  (refused here unless the column labels agree).
\<close>

datatype if_exists = Fail | Replace | Append

definition to_sql ::
  "'f frame \<Rightarrow> string \<Rightarrow> string \<Rightarrow> if_exists \<Rightarrow> 'f world \<Rightarrow> (error + unit) \<times> 'f world" where
  "to_sql df name path mode w =
     (let tables = (case databases w path of None \<Rightarrow> (\<lambda>_. None) | Some ts \<Rightarrow> ts);
          w' = w\<lparr>io_log := io_log w @ [ToSql path name]\<rparr>;
          store = (\<lambda>t. (Inr (), w'\<lparr>databases := (databases w')(path \<mapsto> tables(name \<mapsto> t))\<rparr>))
      in case tables name of
           None \<Rightarrow> store df
         | Some old \<Rightarrow>
             (case mode of
                Fail \<Rightarrow> (Inl ValueError, w')
              | Replace \<Rightarrow> store df
              | Append \<Rightarrow>
                  if columns old = columns df
                  then store (map2 (\<lambda>a b. (fst a, snd a @ snd b)) old df)
                  else (Inl ValueError, w')))"

definition save_data ::
  "'f frame \<Rightarrow> string \<Rightarrow> bool \<Rightarrow> 'f world \<Rightarrow> (error + unit) \<times> 'f world" where
  "save_data df database_filename should_replace w =
     (case to_sql df ''DISASTER_DATA'' database_filename Replace w of
        (Inl e, w1) \<Rightarrow> (Inl e, w1)
      | (Inr _, w1) \<Rightarrow>
          (Inr (), print (''database: '' @ database_filename @ '' - tablename ''
                            @ ''DISASTER_DATA'') w1))"



section \<open>\<open>clean_data\<close> on a store of objects\<close>

text \<open>
  The same function with the DataFrames as objects in a store, to follow which object each
  statement changes. A reference is a position in the store. An object is a frame with
  string labels or, between lines 36 and 51, the expanded frame with its positional labels.
  A statement yields a value or an exception, and the store it leaves.
\<close>

datatype 'f obj = Named "'f frame" | Positional "'f val list list"

type_synonym 'f store = "'f obj list"

type_synonym ('f, 'a) stmt = "'f store \<Rightarrow> (error + 'a) \<times> 'f store"

definition then_do :: "('f, 'a) stmt \<Rightarrow> ('a \<Rightarrow> ('f, 'b) stmt) \<Rightarrow> ('f, 'b) stmt" where
  "then_do f g h = (case f h of (Inl e, h') \<Rightarrow> (Inl e, h') | (Inr a, h') \<Rightarrow> g a h')"

definition lift :: "error + 'a \<Rightarrow> ('f, 'a) stmt" where
  "lift r h = (r, h)"

text \<open>A new object gets the next free reference.\<close>

definition new :: "'f obj \<Rightarrow> ('f, nat) stmt" where
  "new ob h = (Inr (length h), h @ [ob])"

definition named :: "nat \<Rightarrow> ('f, 'f frame) stmt" where
  "named r h =
     (if r < length h then (case h ! r of Named df \<Rightarrow> (Inr df, h) | _ \<Rightarrow> (Inl TypeError, h))
      else (Inl KeyError, h))"

definition positional :: "nat \<Rightarrow> ('f, 'f val list list) stmt" where
  "positional r h =
     (if r < length h then (case h ! r of Positional cols \<Rightarrow> (Inr cols, h) | _ \<Rightarrow> (Inl TypeError, h))
      else (Inl KeyError, h))"

text \<open>A change in place: the object at the reference is replaced.\<close>

definition put :: "nat \<Rightarrow> 'f obj \<Rightarrow> ('f, unit) stmt" where
  "put r ob h = (Inr (), h[r := ob])"

fun convert_columns_store ::
  "(string \<Rightarrow> 'f option) \<Rightarrow> string list \<Rightarrow> nat \<Rightarrow> ('f, unit) stmt" where
  "convert_columns_store parse_float [] categories = lift (Inr ())"
| "convert_columns_store parse_float (column # rest) categories =
     then_do (named categories) (\<lambda>cats.
     then_do (lift (getitem cats column)) (\<lambda>series.
     then_do (lift (to_numeric parse_float (map (str_replace_cell (column @ ''-'') []) series)))
       (\<lambda>nums.
     then_do (put categories (Named (AList.update column nums cats))) (\<lambda>_.
     convert_columns_store parse_float rest categories))))"

text \<open>
  The parameters \<open>messages\<close> and \<open>categories\<close> are references to the caller's objects.
  Line 33 makes a new object for \<open>df\<close>; line 36 binds the local name \<open>categories\<close> to
  another new object (the inner \<open>categories\<close> below), so every later change through that
  name and through \<open>df\<close> goes to an object made here.
\<close>

definition clean_data_store ::
  "(string \<Rightarrow> 'f option) \<Rightarrow> nat \<Rightarrow> nat \<Rightarrow> ('f, nat) stmt" where
  "clean_data_store parse_float messages categories =
     then_do (named messages) (\<lambda>m.
     then_do (named categories) (\<lambda>c.
     then_do (lift (pd_merge m c ''id'')) (\<lambda>merged.
     then_do (new (Named merged)) (\<lambda>df.
     then_do (named df) (\<lambda>d.
     then_do (lift (getitem d ''categories'')) (\<lambda>series.
     then_do (lift (str_split_expand series)) (\<lambda>expanded.
     then_do (new (Positional expanded)) (\<lambda>categories.
     then_do (positional categories) (\<lambda>cols.
     then_do (lift (iloc0 cols)) (\<lambda>row.
     then_do (lift (new_cat_list row)) (\<lambda>names.
     then_do (put categories (Named (zip names cols))) (\<lambda>_.
     then_do (convert_columns_store parse_float names categories) (\<lambda>_.
     then_do (named df) (\<lambda>d.
     then_do (lift (drop_column d ''categories'')) (\<lambda>d'.
     then_do (put df (Named d')) (\<lambda>_.
     then_do (named df) (\<lambda>d.
     then_do (named categories) (\<lambda>cats.
     then_do (put df (Named (setitem_frame d cats))) (\<lambda>_.
     then_do (named df) (\<lambda>d.
     then_do (put df (Named (drop_duplicates d))) (\<lambda>_.
     lift (Inr df))))))))))))))))))))))"

section \<open>Removing duplicates\<close>

lemma keep_unmarked_simps [simp]:
  "keep_unmarked [] xs = []"
  "keep_unmarked ms [] = []"
  "keep_unmarked (m # ms) (x # xs) = (if m then keep_unmarked ms xs else x # keep_unmarked ms xs)"
  by (simp_all add: keep_unmarked_def)

lemma keep_unmarked_map: "keep_unmarked ms (map f xs) = map f (keep_unmarked ms xs)"
proof (induction ms arbitrary: xs)
  case Nil
  then show ?case by simp
next
  case (Cons m ms)
  then show ?case by (cases xs) simp_all
qed

lemma keep_unmarked_zip:
  "keep_unmarked ms (zip xs ys) = zip (keep_unmarked ms xs) (keep_unmarked ms ys)"
proof (induction ms arbitrary: xs ys)
  case Nil
  then show ?case by simp
next
  case (Cons m ms)
  show ?case
  proof (cases xs)
    case Nil
    then show ?thesis by simp
  next
    case xs: (Cons x xs')
    show ?thesis
    proof (cases ys)
      case Nil
      then show ?thesis by simp
    next
      case (Cons y ys')
      with xs Cons.IH show ?thesis by simp
    qed
  qed
qed

lemma rows_of_keep_unmarked:
  "rows_of (map (\<lambda>(n, vs). (n, keep_unmarked ms vs)) df) = keep_unmarked ms (rows_of df)"
proof (induction df rule: rows_of.induct)
  case 1
  then show ?case by simp
next
  case (2 n vs)
  then show ?case by (simp add: keep_unmarked_map)
next
  case (3 n vs c df)
  obtain n' vs' where c: "c = (n', vs')" by (cases c)
  from 3 show ?case
    by (simp add: c keep_unmarked_map keep_unmarked_zip)
qed

lemma keep_first_distinct:
  "distinct (keep_unmarked (duplicated_from seen rs) rs)
   \<and> set (keep_unmarked (duplicated_from seen rs) rs) \<inter> set seen = {}"
proof (induction rs arbitrary: seen)
  case Nil
  then show ?case by simp
next
  case (Cons r rs)
  from Cons.IH [of "r # seen"] show ?case by auto
qed

lemma duplicated_from_distinct:
  "distinct rs \<Longrightarrow> set rs \<inter> set seen = {} \<Longrightarrow>
   duplicated_from seen rs = replicate (length rs) False"
  by (induction rs arbitrary: seen) auto

lemma keep_unmarked_replicate:
  "length xs \<le> n \<Longrightarrow> keep_unmarked (replicate n False) xs = xs"
proof (induction xs arbitrary: n)
  case Nil
  then show ?case by simp
next
  case (Cons x xs)
  then show ?case by (cases n) simp_all
qed

lemma length_keep_unmarked:
  "length ms \<le> length xs \<Longrightarrow> length (keep_unmarked ms xs) = length (filter Not ms)"
proof (induction ms arbitrary: xs)
  case Nil
  then show ?case by simp
next
  case (Cons m ms)
  then show ?case by (cases xs) simp_all
qed

lemma length_rows_of_le: "c \<in> set df \<Longrightarrow> length (rows_of df) \<le> length (snd c)"
proof (induction df rule: rows_of.induct)
  case 1
  then show ?case by simp
next
  case (2 n vs)
  then show ?case by simp
next
  case (3 n vs c' df)
  then show ?case by auto
qed

lemma length_duplicated_from [simp]: "length (duplicated_from seen rs) = length rs"
  by (induction rs arbitrary: seen) simp_all

lemma rows_of_drop_duplicates:
  "rows_of (drop_duplicates df) = keep_unmarked (duplicated df) (rows_of df)"
  by (simp add: drop_duplicates_def rows_of_keep_unmarked)

lemma distinct_rows_drop_duplicates: "distinct (rows_of (drop_duplicates df))"
  using keep_first_distinct [of "[]" "rows_of df"]
  by (simp add: rows_of_drop_duplicates duplicated_def)

lemma column_length_drop_duplicates:
  assumes "c \<in> set (drop_duplicates df)"
  shows "length (snd c) = length (rows_of (drop_duplicates df))"
proof -
  from assms obtain n vs where mem: "(n, vs) \<in> set df"
    and c: "c = (n, keep_unmarked (duplicated df) vs)"
    by (auto simp: drop_duplicates_def)
  have le: "length (duplicated df) \<le> length vs"
    using length_rows_of_le [OF mem] by (simp add: duplicated_def)
  have "length (keep_unmarked (duplicated df) (rows_of df)) = length (filter Not (duplicated df))"
    by (rule length_keep_unmarked) (simp add: duplicated_def)
  with le c show ?thesis
    by (simp add: rows_of_drop_duplicates length_keep_unmarked)
qed

lemma drop_duplicates_idem: "drop_duplicates (drop_duplicates df) = drop_duplicates df"
proof -
  let ?d = "drop_duplicates df"
  have dup: "duplicated ?d = replicate (length (rows_of ?d)) False"
    unfolding duplicated_def
    by (rule duplicated_from_distinct) (simp_all add: distinct_rows_drop_duplicates)
  have "map (\<lambda>(n, vs). (n, keep_unmarked (duplicated ?d) vs)) ?d = map (\<lambda>c. c) ?d"
  proof (rule map_cong [OF refl])
    fix c assume "c \<in> set ?d"
    from column_length_drop_duplicates [OF this]
    show "(case c of (n, vs) \<Rightarrow> (n, keep_unmarked (duplicated ?d) vs)) = c"
      by (cases c) (simp add: dup keep_unmarked_replicate)
  qed
  then show ?thesis by (simp add: drop_duplicates_def [of ?d])
qed

text \<open>
  Claim C6. Removing the exact-duplicate rows of a table that has already been through
  \<open>drop_duplicates\<close> removes nothing more: the table stays the same, and so does its row
  count.
\<close>

theorem dedup_idempotent:
  "drop_duplicates (drop_duplicates df) = drop_duplicates df
   \<and> nrows (drop_duplicates (drop_duplicates df)) = nrows (drop_duplicates df)"
  by (simp add: drop_duplicates_idem)

section \<open>The scenario of the specification\<close>

lemma upt_2: "[0..<2] = [0, 1]" by (simp add: upt_rec)

lemma scenario_merge:
  "pd_merge [(''id'', [VInt 1]), (''message'', [VStr ''flood here''])]
     [(''id'', [VInt 1]), (''categories'', [VStr ''related-1;offer-0''])] ''id''
   = Inr [(''id'', [VInt 1]), (''message'', [VStr ''flood here'']),
          (''categories'', [VStr ''related-1;offer-0''])]"
  by (simp add: pd_merge_def key_column_def join_indexers_def columns_def)

lemma scenario_expand:
  "expand_categories parse_float [VStr ''related-1;offer-0'']
   = Inr [(''related'', [VInt 1]), (''offer'', [VInt 0])]"
  by (simp add: expand_categories_def str_split_expand_def is_str_def tokens_of_def
      iloc0_def slice_to_minus2_def getitem_def str_replace_cell_def to_numeric_cell_def
      int_literal_def digit_of_def decimal_digits_def upt_2)

text \<open>
  Claim C1. For the messages table with the one row (id 1, message "flood here") and the
  categories table with the one row (id 1, categories "related-1;offer-0"), \<open>clean_data\<close>
  returns the table with the columns id, message, related, offer and the one row
  (1, "flood here", 1, 0): the raw categories column is gone, each token gave a column
  named by all but its last two characters, holding the token's number.
\<close>

theorem clean_data_scenario:
  "clean_data parse_float
     [(''id'', [VInt 1]), (''message'', [VStr ''flood here''])]
     [(''id'', [VInt 1]), (''categories'', [VStr ''related-1;offer-0''])]
   = Inr [(''id'', [VInt 1]), (''message'', [VStr ''flood here'']),
          (''related'', [VInt 1]), (''offer'', [VInt 0])]"
  by (simp add: clean_data_def merge_and_expand_def scenario_merge scenario_expand
      getitem_def drop_column_def columns_def setitem_frame_def drop_duplicates_def
      duplicated_def)

section \<open>The writer\<close>

lemma save_data_flag: "save_data df path flag w = save_data df path True w"
  by (simp add: save_data_def)

text \<open>
  Claim C3. The docstring of \<open>save_data\<close> says that \<open>should_replace\<close> decides what
  happens to a table that exists. The code passes \<open>if_exists="replace"\<close> whatever the
  flag is: called with the flag false on a database whose table DISASTER_DATA holds one
  row, it neither fails nor appends, it replaces the table.
\<close>

theorem save_data_ignores_should_replace:
  "save_data [(''id'', [VInt 2])] ''d.db'' False
     \<lparr>csv_files = \<lambda>_. None,
      databases = (\<lambda>_. None)(''d.db'' \<mapsto> (\<lambda>_. None)(''DISASTER_DATA'' \<mapsto> [(''id'', [VInt 1])])),
      stdout = [], io_log = []\<rparr>
   = (Inr (),
      \<lparr>csv_files = \<lambda>_. None,
       databases = (\<lambda>_. None)(''d.db'' \<mapsto> (\<lambda>_. None)(''DISASTER_DATA'' \<mapsto> [(''id'', [VInt 2])])),
       stdout = [''database: d.db - tablename DISASTER_DATA''],
       io_log = [ToSql ''d.db'' ''DISASTER_DATA'']\<rparr>)"
  by (simp add: save_data_def to_sql_def print_def)

section \<open>The command line\<close>



section \<open>Columns through \<open>clean_data\<close>\<close>

lemma filter_key_map_of:
  "filter (\<lambda>c. fst c = k) al = [c] \<Longrightarrow> map_of al k = Some (snd c)"
proof (induction al)
  case Nil
  then show ?case by simp
next
  case (Cons a al)
  then show ?case by (cases a) (auto split: if_splits)
qed

lemma getitem_map_of: "getitem df k = Inr vs \<Longrightarrow> map_of df k = Some vs"
  by (auto simp: getitem_def split: list.splits dest: filter_key_map_of)

lemma key_column_map_of: "key_column df k = Inr vs \<Longrightarrow> map_of df k = Some vs"
  by (auto simp: key_column_def split: list.splits dest: filter_key_map_of)

lemma getitem_mem: "getitem df k = Inr vs \<Longrightarrow> (k, vs) \<in> set df"
  by (drule getitem_map_of) (rule map_of_SomeD)

lemma map_of_distinct_getitem:
  "distinct (map fst df) \<Longrightarrow> map_of df k = Some vs \<Longrightarrow> getitem df k = Inr vs"
proof (induction df)
  case Nil
  then show ?case by simp
next
  case (Cons a df)
  obtain n ws where a: "a = (n, ws)" by (cases a)
  show ?case
  proof (cases "n = k")
    case True
    with Cons.prems a have "filter (\<lambda>c. fst c = k) df = []"
      by (auto simp: filter_empty_conv)
    with True Cons.prems a show ?thesis by (simp add: getitem_def)
  next
    case False
    with Cons a show ?thesis by (simp add: getitem_def)
  qed
qed

lemma join_indexers_mem:
  "(i, j) \<in> set (join_indexers kl kr) \<Longrightarrow> i < length kl \<and> j < length kr \<and> kr ! j = kl ! i"
  by (auto simp: join_indexers_def)

lemma join_values:
  "set (map (\<lambda>(i, j). kl ! i) (join_indexers kl kr)) \<subseteq> set kl \<inter> set kr"
proof
  fix v assume "v \<in> set (map (\<lambda>(i, j). kl ! i) (join_indexers kl kr))"
  then obtain i j where ij: "(i, j) \<in> set (join_indexers kl kr)" and v: "v = kl ! i"
    by auto
  from join_indexers_mem [OF ij] v show "v \<in> set kl \<inter> set kr"
    by (metis IntI nth_mem)
qed

lemma map_of_map_key:
  assumes "\<And>n. g n = k \<longleftrightarrow> n = k"
  shows "map_of (map (\<lambda>(n, vs). (g n, f vs)) al) k = map_option f (map_of al k)"
proof (induction al)
  case Nil
  then show ?case by simp
next
  case (Cons a al)
  obtain n vs where a: "a = (n, vs)" by (cases a)
  show ?case
  proof (cases "n = k")
    case True
    then have "g n = k" by (simp add: assms)
    with True a show ?thesis by simp
  next
    case False
    then have "g n \<noteq> k" by (simp add: assms)
    with False a Cons.IH show ?thesis by simp
  qed
qed

lemma suffix_x_not_id: "n @ ''_x'' \<noteq> ''id''"
  by (cases n) (auto simp: Cons_eq_append_conv)

lemma pd_merge_id:
  assumes "pd_merge left right ''id'' = Inr df"
  shows "\<exists>kl kr. key_column left ''id'' = Inr kl \<and> key_column right ''id'' = Inr kr
           \<and> map_of df ''id'' = Some (map (\<lambda>(i, j). kl ! i) (join_indexers kl kr))"
proof -
  from assms obtain kl kr where kl: "key_column left ''id'' = Inr kl"
    and kr: "key_column right ''id'' = Inr kr"
    by (auto simp: pd_merge_def split: sum.splits)
  let ?lname = "\<lambda>n. if n \<noteq> ''id'' \<and> n \<in> set (columns right) then n @ ''_x'' else n"
  let ?pairs = "join_indexers kl kr"
  have key: "\<And>n. ?lname n = ''id'' \<longleftrightarrow> n = ''id''"
    by (simp add: suffix_x_not_id)
  have "map_of (map (\<lambda>(n, vs). (?lname n, map (\<lambda>(i, j). vs ! i) ?pairs)) left) ''id''
        = map_option (\<lambda>vs. map (\<lambda>(i, j). vs ! i) ?pairs) (map_of left ''id'')"
    by (rule map_of_map_key) (rule key)
  also have "\<dots> = Some (map (\<lambda>(i, j). kl ! i) ?pairs)"
    by (simp add: key_column_map_of [OF kl])
  finally have "map_of df ''id'' = Some (map (\<lambda>(i, j). kl ! i) ?pairs)"
    using assms kl kr
    by (auto simp: pd_merge_def Let_def map_add_def split: if_splits)
  with kl kr show ?thesis by blast
qed


lemma new_cat_list_Inr:
  "new_cat_list row = Inr names \<Longrightarrow>
   \<exists>toks. row = map VStr toks \<and> names = map slice_to_minus2 toks"
proof (induction row arbitrary: names)
  case Nil
  then show ?case by simp
next
  case (Cons cat cats)
  from Cons.prems obtain tok ns where cat: "cat = VStr tok"
    and ns: "new_cat_list cats = Inr ns" and names: "names = slice_to_minus2 tok # ns"
    by (auto split: val.splits sum.splits)
  from Cons.IH [OF ns] obtain toks where "cats = map VStr toks" "ns = map slice_to_minus2 toks"
    by blast
  with cat names have "cat # cats = map VStr (tok # toks) \<and> names = map slice_to_minus2 (tok # toks)"
    by simp
  then show ?case by (rule exI)
qed

lemma fold_max_ge: "x \<in> set xs \<Longrightarrow> x \<le> fold max xs (a::nat)"
proof -
  assume "x \<in> set xs"
  then have "x \<le> Max (set (a # xs))" by (intro Max_ge) auto
  then show ?thesis by (simp only: Max.set_eq_fold)
qed

lemma category_names:
  assumes split: "str_split_expand (first # rest) = Inr cols"
    and row: "iloc0 cols = Inr row"
    and names: "new_cat_list row = Inr names"
  shows "names = map slice_to_minus2 (tokens_of first)"
    and "length cols = length (tokens_of first)"
    and "cols = map (\<lambda>j. map (\<lambda>ts. if j < length ts then VStr (ts ! j) else VNaN)
                              (map tokens_of (first # rest)))
                    [0..<length (tokens_of first)]"
proof -
  let ?toks = "map tokens_of (first # rest)"
  let ?t0 = "tokens_of first"
  define width where "width = fold max (map length ?toks) 0"
  let ?cell = "\<lambda>j ts. if j < length ts then VStr (ts ! j) else VNaN"
  from split have cols: "cols = map (\<lambda>j. map (?cell j) ?toks) [0..<width]"
    by (simp add: str_split_expand_def width_def Let_def split: if_splits)
  from row have "row = map hd cols"
    by (simp add: iloc0_def split: if_splits)
  with cols have row_eq: "row = map (\<lambda>j. ?cell j ?t0) [0..<width]"
    by simp
  from new_cat_list_Inr [OF names] obtain toks where toks: "row = map VStr toks"
    and n: "names = map slice_to_minus2 toks"
    by blast
  have le: "width \<le> length ?t0"
  proof (rule ccontr)
    assume "\<not> width \<le> length ?t0"
    then have lt: "length ?t0 < width" by simp
    then have "row ! length ?t0 = VNaN" by (simp add: row_eq)
    moreover from lt have "length ?t0 < length row" by (simp add: row_eq)
    then have "row ! length ?t0 = VStr (toks ! length ?t0)" by (simp add: toks)
    ultimately show False by simp
  qed
  have "length ?t0 \<le> width"
    unfolding width_def by (rule fold_max_ge) simp
  with le have w: "width = length ?t0" by simp
  with cols show "length cols = length ?t0" by simp
  from w cols show "cols = map (\<lambda>j. map (?cell j) ?toks) [0..<length ?t0]" by simp
  have "row = map (\<lambda>j. VStr (?t0 ! j)) [0..<length ?t0]"
    unfolding row_eq w by (rule map_cong) simp_all
  also have "\<dots> = map VStr (map ((!) ?t0) [0..<length ?t0])"
    by simp
  also have "\<dots> = map VStr ?t0"
    by (simp only: map_nth)
  finally have "row = map VStr ?t0" .
  with toks have "toks = ?t0" by (simp add: inj_map_eq_map inj_on_def)
  with n show "names = map slice_to_minus2 ?t0" by simp
qed

lemma getitem_update_other:
  "n \<noteq> k \<Longrightarrow> getitem (AList.update k v al) n = getitem al n"
proof -
  assume "n \<noteq> k"
  then have "filter (\<lambda>c. fst c = n) (AList.update k v al) = filter (\<lambda>c. fst c = n) al"
    by (induction al) auto
  then show ?thesis by (simp add: getitem_def)
qed

lemma getitem_key: "getitem df k = Inr vs \<Longrightarrow> k \<in> set (map fst df)"
  by (drule getitem_mem) force

lemma convert_columns_keys:
  "convert_columns pf ns cat = Inr cat' \<Longrightarrow> map fst cat' = map fst cat"
proof (induction ns arbitrary: cat)
  case Nil
  then show ?case by simp
next
  case (Cons column rest)
  from Cons.prems obtain series nums where g: "getitem cat column = Inr series"
    and r: "convert_columns pf rest (AList.update column nums cat) = Inr cat'"
    by (auto split: sum.splits)
  from Cons.IH [OF r] getitem_key [OF g] show ?case
    by (simp add: update_keys)
qed


lemma expand_categories_columns:
  assumes "expand_categories pf (first # rest) = Inr cats"
  shows "columns cats = map slice_to_minus2 (tokens_of first)"
proof -
  from assms obtain cols row names where split: "str_split_expand (first # rest) = Inr cols"
    and row: "iloc0 cols = Inr row" and names: "new_cat_list row = Inr names"
    and conv: "convert_columns pf names (zip names cols) = Inr cats"
    by (auto simp: expand_categories_def split: sum.splits)
  note cn = category_names [OF split row names]
  from cn(1,2) have "length names = length cols" by simp
  then have "map fst (zip names cols) = names" by simp
  with convert_columns_keys [OF conv] cn(1) show ?thesis
    by (simp add: columns_def)
qed

lemma setitem_frame_other:
  "k \<notin> set (columns cats) \<Longrightarrow> map_of (setitem_frame df cats) k = map_of df k"
  unfolding setitem_frame_def columns_def
  by (induction cats arbitrary: df) (simp_all add: update_conv')

lemma map_of_drop_duplicates:
  "map_of (drop_duplicates df) k = map_option (keep_unmarked (duplicated df)) (map_of df k)"
  by (simp add: drop_duplicates_def map_of_map)

lemma set_keep_unmarked: "set (keep_unmarked ms xs) \<subseteq> set xs"
  by (auto simp: keep_unmarked_def dest: set_zip_rightD)

lemma clean_data_steps:
  assumes "clean_data pf messages categories = Inr out"
  obtains df series cats where "pd_merge messages categories ''id'' = Inr df"
    and "getitem df ''categories'' = Inr series"
    and "expand_categories pf series = Inr cats"
    and "out = drop_duplicates (setitem_frame (AList.delete ''categories'' df) cats)"
  using assms
  by (auto simp: clean_data_def merge_and_expand_def drop_column_def split: sum.splits if_splits)

section \<open>The identifiers of the cleaned table\<close>

text \<open>
  The inner join of line 33: when no token of the first joined row, cut by its last two
  characters, is \<open>id\<close>, every value of the identifier column of the cleaned table is a
  value of the identifier column of the messages table and of the identifier column of the
  categories table.
\<close>

lemma clean_data_inner_join:
  assumes ok: "clean_data pf messages categories = Inr out"
    and merged: "pd_merge messages categories ''id'' = Inr df"
    and col: "getitem df ''categories'' = Inr (first # rest)"
    and no_id: "''id'' \<notin> slice_to_minus2 ` set (tokens_of first)"
  shows "\<exists>ids kl kr. map_of out ''id'' = Some ids
           \<and> key_column messages ''id'' = Inr kl \<and> key_column categories ''id'' = Inr kr
           \<and> set ids \<subseteq> set kl \<inter> set kr"
proof -
  from ok merged col obtain cats where cats: "expand_categories pf (first # rest) = Inr cats"
    and out: "out = drop_duplicates (setitem_frame (AList.delete ''categories'' df) cats)"
    by (auto elim!: clean_data_steps)
  from pd_merge_id [OF merged] obtain kl kr where kl: "key_column messages ''id'' = Inr kl"
    and kr: "key_column categories ''id'' = Inr kr"
    and ids: "map_of df ''id'' = Some (map (\<lambda>(i, j). kl ! i) (join_indexers kl kr))"
    by blast
  let ?joined = "map (\<lambda>(i, j). kl ! i) (join_indexers kl kr)"
  let ?pre = "setitem_frame (AList.delete ''categories'' df) cats"
  from no_id have "''id'' \<notin> set (columns cats)"
    by (simp add: expand_categories_columns [OF cats])
  then have "map_of ?pre ''id'' = Some ?joined"
    by (simp add: setitem_frame_other ids)
  then have "map_of out ''id'' = Some (keep_unmarked (duplicated ?pre) ?joined)"
    by (simp add: out map_of_drop_duplicates)
  moreover have "set (keep_unmarked (duplicated ?pre) ?joined) \<subseteq> set kl \<inter> set kr"
    using set_keep_unmarked join_values by (rule subset_trans)
  ultimately show ?thesis using kl kr by blast
qed

lemma clean_data_inner_join_example:
  "clean_data (\<lambda>_. None :: unit option)
     [(''id'', [VInt 1, VInt 2]), (''message'', [VStr ''a'', VStr ''b''])]
     [(''id'', [VInt 2, VInt 3]), (''categories'', [VStr ''related-1'', VStr ''related-0''])]
   = Inr [(''id'', [VInt 2]), (''message'', [VStr ''b'']), (''related'', [VInt 1])]
   \<and> (\<exists>ids kl kr.
         map_of [(''id'', [VInt 2 :: unit val]), (''message'', [VStr ''b'']), (''related'', [VInt 1])]
           ''id'' = Some ids
         \<and> key_column [(''id'', [VInt 1, VInt 2 :: unit val]), (''message'', [VStr ''a'', VStr ''b''])]
             ''id'' = Inr kl
         \<and> key_column [(''id'', [VInt 2, VInt 3 :: unit val]),
                        (''categories'', [VStr ''related-1'', VStr ''related-0''])] ''id'' = Inr kr
         \<and> set ids \<subseteq> set kl \<inter> set kr)"
proof -
  let ?m = "[(''id'', [VInt 1, VInt 2 :: unit val]), (''message'', [VStr ''a'', VStr ''b''])]"
  let ?c = "[(''id'', [VInt 2, VInt 3 :: unit val]),
             (''categories'', [VStr ''related-1'', VStr ''related-0''])]"
  let ?df = "[(''id'', [VInt 2 :: unit val]), (''message'', [VStr ''b'']),
              (''categories'', [VStr ''related-1''])]"
  have ok: "clean_data (\<lambda>_. None :: unit option) ?m ?c
            = Inr [(''id'', [VInt 2]), (''message'', [VStr ''b'']), (''related'', [VInt 1])]"
    by code_simp
  have merged: "pd_merge ?m ?c ''id'' = Inr ?df"
    by code_simp
  have col: "getitem ?df ''categories'' = Inr (VStr ''related-1'' # [])"
    by code_simp
  have no_id: "''id'' \<notin> slice_to_minus2 ` set (tokens_of (VStr ''related-1'' :: unit val))"
    by code_simp
  from clean_data_inner_join [OF ok merged col no_id] ok show ?thesis
    by simp
qed

text \<open>
  Claim C2. The merge of line 33 keeps only identifiers that both tables have, and the
  comment on line 65 and the docstring say that the category columns are new columns added
  to the merged table. Line 66 assigns them by label instead: for a categories string
  \<open>id-7\<close> the category is named \<open>id\<close>, the identifier column is overwritten with the
  category's number, and the cleaned table holds the identifier 7, which neither input
  table has (both hold only the identifier 1).
\<close>

theorem clean_data_id_overwritten:
  "clean_data (\<lambda>_. None :: unit option)
     [(''id'', [VInt 1]), (''message'', [VStr ''x''])]
     [(''id'', [VInt 1]), (''categories'', [VStr ''id-7''])]
   = Inr [(''id'', [VInt 7]), (''message'', [VStr ''x''])]
   \<and> VInt 7 \<notin> set [VInt 1 :: unit val]"
  by code_simp

section \<open>The rows of the cleaned table\<close>

text \<open>
  Claim C4, as stated, fails: two messages with the same identifier and different texts
  are two different rows, \<open>drop_duplicates\<close> keeps both, and the identifier 1 is in two
  rows of the cleaned table.
\<close>

theorem clean_data_unique_id_counterexample:
  "clean_data (\<lambda>_. None :: unit option)
     [(''id'', [VInt 1, VInt 1]), (''message'', [VStr ''a'', VStr ''b''])]
     [(''id'', [VInt 1]), (''categories'', [VStr ''related-1''])]
   = Inr [(''id'', [VInt 1, VInt 1]), (''message'', [VStr ''a'', VStr ''b'']),
          (''related'', [VInt 1, VInt 1])]
   \<and> \<not> distinct [VInt 1 :: unit val, VInt 1]"
  by code_simp

lemma rectangular_drop_duplicates:
  "rectangular (drop_duplicates df) \<and> nrows (drop_duplicates df) = length (rows_of (drop_duplicates df))"
proof -
  let ?d = "drop_duplicates df"
  have n: "nrows ?d = length (rows_of ?d)"
  proof (cases ?d)
    case Nil
    then show ?thesis by (simp add: nrows_def)
  next
    case (Cons c cs)
    then have "c \<in> set ?d" by simp
    from column_length_drop_duplicates [OF this] Cons show ?thesis
      by (cases c) (simp add: nrows_def)
  qed
  moreover have "rectangular ?d"
    unfolding rectangular_def list_all_iff n
    by (blast intro: column_length_drop_duplicates)
  ultimately show ?thesis by simp
qed

text \<open>
  Claim C4, amended. The rows of the cleaned table are pairwise different: no two rows
  at different positions are equal in all columns (two rows may share their identifier
  when they differ elsewhere). Every column has as many cells as the table has rows.
\<close>

theorem clean_data_rows_distinct:
  assumes "clean_data pf messages categories = Inr out"
  shows "distinct (rows_of out) \<and> rectangular out \<and> length (rows_of out) = nrows out"
proof -
  from assms obtain df where out: "out = drop_duplicates df"
    by (auto simp: clean_data_def split: sum.splits)
  have "distinct (rows_of out)"
    unfolding out by (rule distinct_rows_drop_duplicates)
  with rectangular_drop_duplicates [of df] show ?thesis
    by (simp add: out)
qed

theorem clean_data_rows_distinct_witness:
  "clean_data (\<lambda>_. None :: unit option)
     [(''id'', [VInt 1, VInt 1, VInt 2]), (''message'', [VStr ''a'', VStr ''a'', VStr ''b''])]
     [(''id'', [VInt 1, VInt 2]), (''categories'', [VStr ''related-1'', VStr ''related-0''])]
   = Inr [(''id'', [VInt 1, VInt 2]), (''message'', [VStr ''a'', VStr ''b'']),
          (''related'', [VInt 1, VInt 0])]
   \<and> rows_of [(''id'', [VInt 1, VInt 2 :: unit val]),
               (''message'', [VStr ''a'', VStr ''b'']), (''related'', [VInt 1, VInt 0])]
     = [[VInt 1, VStr ''a'', VInt 1], [VInt 2, VStr ''b'', VInt 0]]
   \<and> distinct (rows_of [(''id'', [VInt 1, VInt 2 :: unit val]),
                         (''message'', [VStr ''a'', VStr ''b'']), (''related'', [VInt 1, VInt 0])])"
proof -
  have ok: "clean_data (\<lambda>_. None :: unit option)
     [(''id'', [VInt 1, VInt 1, VInt 2]), (''message'', [VStr ''a'', VStr ''a'', VStr ''b''])]
     [(''id'', [VInt 1, VInt 2]), (''categories'', [VStr ''related-1'', VStr ''related-0''])]
   = Inr [(''id'', [VInt 1, VInt 2]), (''message'', [VStr ''a'', VStr ''b'']),
          (''related'', [VInt 1, VInt 0])]"
    by code_simp
  from clean_data_rows_distinct [OF ok] ok show ?thesis
    by simp
qed

section \<open>The assignment of the expanded columns\<close>

lemma getitem_once: "getitem al n = Inr vs \<Longrightarrow> length (filter (\<lambda>c. fst c = n) al) = 1"
  by (auto simp: getitem_def split: list.splits)

lemma length_filter_update:
  "k \<in> set (map fst al) \<Longrightarrow>
   length (filter (\<lambda>c. fst c = n) (AList.update k v al)) = length (filter (\<lambda>c. fst c = n) al)"
  by (induction al) auto

lemma convert_columns_once:
  "convert_columns pf ns cat = Inr cat' \<Longrightarrow> n \<in> set ns \<Longrightarrow>
   length (filter (\<lambda>c. fst c = n) cat) = 1"
proof (induction ns arbitrary: cat)
  case Nil
  then show ?case by simp
next
  case (Cons column rest)
  from Cons.prems(1) obtain series nums where g: "getitem cat column = Inr series"
    and r: "convert_columns pf rest (AList.update column nums cat) = Inr cat'"
    by (auto split: sum.splits)
  show ?case
  proof (cases "n = column")
    case True
    with getitem_once [OF g] show ?thesis by simp
  next
    case False
    with Cons.prems(2) have "n \<in> set rest" by simp
    from Cons.IH [OF r this] show ?thesis
      by (simp add: length_filter_update [OF getitem_key [OF g]])
  qed
qed

lemma keys_once_distinct:
  "(\<And>n. n \<in> set (map fst al) \<Longrightarrow> length (filter (\<lambda>c. fst c = n) al) = 1) \<Longrightarrow>
   distinct (map fst al)"
proof (induction al)
  case Nil
  then show ?case by simp
next
  case (Cons a al)
  have a: "length (filter (\<lambda>c. fst c = fst a) (a # al)) = 1"
    by (rule Cons.prems) simp
  then have none: "filter (\<lambda>c. fst c = fst a) al = []" by simp
  then have notin: "fst a \<notin> set (map fst al)"
    by (auto simp: filter_empty_conv)
  have "distinct (map fst al)"
  proof (rule Cons.IH)
    fix n assume n: "n \<in> set (map fst al)"
    with notin have "n \<noteq> fst a" by force
    moreover from n have "length (filter (\<lambda>c. fst c = n) (a # al)) = 1"
      by (intro Cons.prems) simp
    ultimately show "length (filter (\<lambda>c. fst c = n) al) = 1" by simp
  qed
  with notin show ?case by simp
qed

lemma expand_categories_distinct:
  assumes "expand_categories pf series = Inr cats"
  shows "distinct (columns cats)"
proof -
  from assms obtain cols names where
    conv: "convert_columns pf names (zip names cols) = Inr cats"
    and names: "\<exists>row. iloc0 cols = Inr row \<and> new_cat_list row = Inr names"
    by (auto simp: expand_categories_def split: sum.splits)
  from names obtain row toks where "row = map hd cols" "row = map VStr toks"
    "names = map slice_to_minus2 toks"
    by (auto simp: iloc0_def split: if_splits dest!: new_cat_list_Inr)
  then have "length names = length cols"
    by (metis length_map)
  then have keys: "map fst (zip names cols) = names" by simp
  have "distinct (map fst (zip names cols))"
  proof (rule keys_once_distinct)
    fix n assume "n \<in> set (map fst (zip names cols))"
    with keys have "n \<in> set names" by simp
    with conv show "length (filter (\<lambda>c. fst c = n) (zip names cols)) = 1"
      by (rule convert_columns_once)
  qed
  with convert_columns_keys [OF conv] show ?thesis
    by (simp add: columns_def)
qed

lemma setitem_frame_columns:
  "distinct (columns cats) \<Longrightarrow>
   columns (setitem_frame df cats)
   = columns df @ filter (\<lambda>n. n \<notin> set (columns df)) (columns cats)"
proof (induction cats arbitrary: df)
  case Nil
  then show ?case by (simp add: setitem_frame_def columns_def)
next
  case (Cons c cats)
  obtain k v where c: "c = (k, v)" by (cases c)
  from Cons.prems c have k: "k \<notin> set (columns cats)" and d: "distinct (columns cats)"
    by (simp_all add: columns_def)
  have step: "setitem_frame df ((k, v) # cats) = setitem_frame (AList.update k v df) cats"
    by (simp add: setitem_frame_def)
  have ih: "columns (setitem_frame df ((k, v) # cats))
            = columns (AList.update k v df)
              @ filter (\<lambda>n. n \<notin> set (columns (AList.update k v df))) (columns cats)"
    unfolding step by (rule Cons.IH [OF d])
  show ?case
  proof (cases "k \<in> set (columns df)")
    case True
    then have upd: "columns (AList.update k v df) = columns df"
      by (simp add: columns_def update_keys)
    from True have "filter (\<lambda>n. n \<notin> set (columns df)) (columns ((k, v) # cats))
                    = filter (\<lambda>n. n \<notin> set (columns df)) (columns cats)"
      by (simp add: columns_def)
    with ih show ?thesis
      by (simp only: upd c)
  next
    case False
    then have upd: "columns (AList.update k v df) = columns df @ [k]"
      by (simp add: columns_def update_keys)
    have "filter (\<lambda>n. n \<notin> set (columns df @ [k])) (columns cats)
          = filter (\<lambda>n. n \<notin> set (columns df)) (columns cats)"
      using k by (intro filter_cong) auto
    moreover from False have "filter (\<lambda>n. n \<notin> set (columns df)) (columns ((k, v) # cats))
                    = k # filter (\<lambda>n. n \<notin> set (columns df)) (columns cats)"
      by (simp add: columns_def)
    ultimately show ?thesis using ih
      by (simp only: upd c append_assoc append_Cons append_Nil)
  qed
qed

lemma setitem_frame_assigned:
  "distinct (columns cats) \<Longrightarrow> n \<in> set (columns cats) \<Longrightarrow>
   map_of (setitem_frame df cats) n = map_of cats n"
proof (induction cats arbitrary: df)
  case Nil
  then show ?case by (simp add: columns_def)
next
  case (Cons c cats)
  obtain k v where c: "c = (k, v)" by (cases c)
  from Cons.prems c have k: "k \<notin> set (columns cats)" and d: "distinct (columns cats)"
    by (simp_all add: columns_def)
  have step: "setitem_frame df ((k, v) # cats) = setitem_frame (AList.update k v df) cats"
    by (simp add: setitem_frame_def)
  show ?case
  proof (cases "n = k")
    case True
    with k show ?thesis
      by (simp add: step c setitem_frame_other update_conv')
  next
    case False
    with Cons.prems c have "n \<in> set (columns cats)" by (simp add: columns_def)
    from Cons.IH [OF d this] False show ?thesis
      by (simp add: step c)
  qed
qed

text \<open>
  Claim C9. Let \<open>df\<close> be the merged table and \<open>cats\<close> the expanded categories frame.
  The frame after line 66 has the columns of \<open>df\<close> without \<open>categories\<close>, in their
  places, followed by the category names that are not among them: a category name equal to
  the name of an existing column adds no column. Such a column holds the category's
  values, and every column whose name is not a category name holds what it held in \<open>df\<close>.
\<close>

theorem expansion_overwrites_colliding_columns:
  assumes merged: "pd_merge messages categories ''id'' = Inr df"
    and col: "getitem df ''categories'' = Inr series"
    and cats: "expand_categories pf series = Inr cats"
  shows "\<exists>expanded. merge_and_expand pf messages categories = Inr expanded
           \<and> columns expanded
             = columns (AList.delete ''categories'' df)
               @ filter (\<lambda>n. n \<notin> set (columns (AList.delete ''categories'' df))) (columns cats)
           \<and> (\<forall>n \<in> set (columns cats). map_of expanded n = map_of cats n)
           \<and> (\<forall>n. n \<notin> set (columns cats) \<and> n \<noteq> ''categories''
                  \<longrightarrow> map_of expanded n = map_of df n)"
proof -
  let ?d = "AList.delete ''categories'' df"
  let ?e = "setitem_frame ?d cats"
  note dist = expand_categories_distinct [OF cats]
  from getitem_key [OF col] have "''categories'' \<in> set (columns df)"
    by (simp add: columns_def)
  with merged col cats have "merge_and_expand pf messages categories = Inr ?e"
    by (simp add: merge_and_expand_def drop_column_def)
  moreover have "columns ?e = columns ?d @ filter (\<lambda>n. n \<notin> set (columns ?d)) (columns cats)"
    using dist by (rule setitem_frame_columns)
  moreover have "\<forall>n \<in> set (columns cats). map_of ?e n = map_of cats n"
    using dist by (simp add: setitem_frame_assigned)
  moreover have "\<forall>n. n \<notin> set (columns cats) \<and> n \<noteq> ''categories'' \<longrightarrow> map_of ?e n = map_of df n"
    by (simp add: setitem_frame_other)
  ultimately show ?thesis by blast
qed


theorem expansion_overwrites_colliding_columns_witness:
  "merge_and_expand (\<lambda>_. None :: unit option)
     [(''id'', [VInt 1]), (''message'', [VStr ''x''])]
     [(''id'', [VInt 1]), (''categories'', [VStr ''id-7;related-1''])]
   = Inr [(''id'', [VInt 7]), (''message'', [VStr ''x'']), (''related'', [VInt 1])]
   \<and> (\<exists>expanded.
         merge_and_expand (\<lambda>_. None :: unit option)
           [(''id'', [VInt 1]), (''message'', [VStr ''x''])]
           [(''id'', [VInt 1]), (''categories'', [VStr ''id-7;related-1''])] = Inr expanded
         \<and> columns expanded = [''id'', ''message'', ''related'']
         \<and> map_of expanded ''id'' = Some [VInt 7]
         \<and> map_of expanded ''message'' = Some [VStr ''x''])"
proof -
  let ?m = "[(''id'', [VInt 1 :: unit val]), (''message'', [VStr ''x''])]"
  let ?c = "[(''id'', [VInt 1 :: unit val]), (''categories'', [VStr ''id-7;related-1''])]"
  let ?df = "[(''id'', [VInt 1 :: unit val]), (''message'', [VStr ''x'']),
              (''categories'', [VStr ''id-7;related-1''])]"
  let ?cats = "[(''id'', [VInt 7 :: unit val]), (''related'', [VInt 1])]"
  have merged: "pd_merge ?m ?c ''id'' = Inr ?df"
    by code_simp
  have col: "getitem ?df ''categories'' = Inr [VStr ''id-7;related-1'']"
    by code_simp
  have cats: "expand_categories (\<lambda>_. None :: unit option) [VStr ''id-7;related-1''] = Inr ?cats"
    by code_simp
  have ev: "merge_and_expand (\<lambda>_. None :: unit option) ?m ?c
            = Inr [(''id'', [VInt 7]), (''message'', [VStr ''x'']), (''related'', [VInt 1])]"
    by code_simp
  from expansion_overwrites_colliding_columns [OF merged col cats] ev show ?thesis
    by (simp add: columns_def)
qed

section \<open>The number of columns\<close>

lemma key_column_once:
  "key_column df k = Inr vs \<Longrightarrow> length (filter (\<lambda>c. fst c = k) df) = 1"
  by (auto simp: key_column_def split: list.splits)

lemma pd_merge_shape:
  assumes "pd_merge left right key = Inr df"
  shows "length df + 1 = length left + length right" and "distinct (columns df)"
proof -
  from assms obtain kl kr where kr: "key_column right key = Inr kr"
    and len: "length df = length left + length (filter (\<lambda>c. fst c \<noteq> key) right)"
    and dist: "distinct (columns df)"
    by (auto simp: pd_merge_def Let_def split: sum.splits if_splits)
  from sum_length_filter_compl [of "\<lambda>c. fst c = key" right] key_column_once [OF kr]
  have "1 + length (filter (\<lambda>c. fst c \<noteq> key) right) = length right" by simp
  with len show "length df + 1 = length left + length right" by simp
  from dist show "distinct (columns df)" .
qed

lemma length_delete_column:
  assumes "distinct (columns df)" and "k \<in> set (columns df)"
  shows "length (AList.delete k df) + 1 = length df"
proof -
  have "length (AList.delete k df) = length (map fst (AList.delete k df))" by simp
  also have "\<dots> = length (remove1 k (columns df))"
    using assms(1) by (simp add: delete_keys columns_def distinct_remove1_removeAll)
  also have "\<dots> = length df - 1"
    using assms(2) by (simp add: length_remove1 columns_def)
  finally show ?thesis using assms(2) by (cases df) (simp_all add: columns_def)
qed

lemma columns_drop_duplicates: "columns (drop_duplicates df) = columns df"
  by (simp add: drop_duplicates_def columns_def split_def comp_def)

text \<open>
  Claim C5, as stated, fails on the scenario of the specification: the messages table has
  2 columns, the categories table 2, the first row 2 tokens, and the cleaned table has
  4 columns, not 2 + (2 - 1) + 2 = 5. The identifier column of the categories table is
  merged into that of the messages table.
\<close>

theorem clean_data_column_count_counterexample:
  "clean_data (\<lambda>_. None :: unit option)
     [(''id'', [VInt 1]), (''message'', [VStr ''flood here''])]
     [(''id'', [VInt 1]), (''categories'', [VStr ''related-1;offer-0''])]
   = Inr [(''id'', [VInt 1]), (''message'', [VStr ''flood here'']),
          (''related'', [VInt 1]), (''offer'', [VInt 0])]
   \<and> length (columns [(''id'', [VInt 1 :: unit val]), (''message'', [VStr ''flood here'']),
                        (''related'', [VInt 1]), (''offer'', [VInt 0])])
     \<noteq> length (columns [(''id'', [VInt 1 :: unit val]), (''message'', [VStr ''flood here''])])
       + (length (columns [(''id'', [VInt 1 :: unit val]),
                           (''categories'', [VStr ''related-1;offer-0''])]) - 1)
       + length (str_split CHR '';'' ''related-1;offer-0'')"
  by code_simp

text \<open>
  Claim C5, amended. When \<open>clean_data\<close> succeeds and no category name (a token of the
  first row of the merged table, cut by its last two characters) is the name of a column
  of the merged table other than \<open>categories\<close>, the cleaned table has
  (message columns) + (category-table columns - 2) + N columns, N the number of tokens of
  the first row of the merged table: the categories table gives up its identifier column
  and its raw categories column.
\<close>

theorem clean_data_column_count:
  assumes ok: "clean_data pf messages categories = Inr out"
    and merged: "pd_merge messages categories ''id'' = Inr df"
    and col: "getitem df ''categories'' = Inr (first # rest)"
    and fresh: "slice_to_minus2 ` set (tokens_of first) \<inter> (set (columns df) - {''categories''}) = {}"
  shows "int (length (columns out))
         = int (length (columns messages)) + (int (length (columns categories)) - 2)
           + int (length (tokens_of first))"
proof -
  from ok merged col obtain cats where cats: "expand_categories pf (first # rest) = Inr cats"
    and out: "out = drop_duplicates (setitem_frame (AList.delete ''categories'' df) cats)"
    by (auto elim!: clean_data_steps)
  let ?d = "AList.delete ''categories'' df"
  note shape = pd_merge_shape [OF merged]
  from getitem_key [OF col] have mem: "''categories'' \<in> set (columns df)"
    by (simp add: columns_def)
  have names: "columns cats = map slice_to_minus2 (tokens_of first)"
    by (rule expand_categories_columns [OF cats])
  have "set (columns ?d) = set (columns df) - {''categories''}"
    by (simp add: columns_def delete_keys)
  with fresh names have "filter (\<lambda>n. n \<notin> set (columns ?d)) (columns cats) = columns cats"
    by (auto simp: filter_id_conv)
  then have "columns out = columns ?d @ columns cats"
    by (simp add: out columns_drop_duplicates
        setitem_frame_columns [OF expand_categories_distinct [OF cats]])
  moreover from names have "length (columns cats) = length (tokens_of first)"
    by simp
  ultimately have "length (columns out) = length ?d + length (tokens_of first)"
    by (simp add: columns_def)
  with length_delete_column [OF shape(2) mem] shape(1) show ?thesis
    by (simp add: columns_def)
qed

theorem clean_data_column_count_witness:
  "clean_data (\<lambda>_. None :: unit option)
     [(''id'', [VInt 1]), (''message'', [VStr ''flood here'']), (''genre'', [VStr ''direct''])]
     [(''id'', [VInt 1]), (''categories'', [VStr ''related-1;offer-0''])]
   = Inr [(''id'', [VInt 1]), (''message'', [VStr ''flood here'']), (''genre'', [VStr ''direct'']),
          (''related'', [VInt 1]), (''offer'', [VInt 0])]
   \<and> int (length (columns [(''id'', [VInt 1 :: unit val]), (''message'', [VStr ''flood here'']),
                             (''genre'', [VStr ''direct'']), (''related'', [VInt 1]),
                             (''offer'', [VInt 0])]))
     = 3 + (2 - 2) + 2"
proof -
  let ?m = "[(''id'', [VInt 1 :: unit val]), (''message'', [VStr ''flood here'']),
             (''genre'', [VStr ''direct''])]"
  let ?c = "[(''id'', [VInt 1 :: unit val]), (''categories'', [VStr ''related-1;offer-0''])]"
  let ?df = "[(''id'', [VInt 1 :: unit val]), (''message'', [VStr ''flood here'']),
              (''genre'', [VStr ''direct'']), (''categories'', [VStr ''related-1;offer-0''])]"
  have ok: "clean_data (\<lambda>_. None :: unit option) ?m ?c
            = Inr [(''id'', [VInt 1]), (''message'', [VStr ''flood here'']),
                   (''genre'', [VStr ''direct'']), (''related'', [VInt 1]), (''offer'', [VInt 0])]"
    by code_simp
  have merged: "pd_merge ?m ?c ''id'' = Inr ?df"
    by code_simp
  have col: "getitem ?df ''categories'' = Inr (VStr ''related-1;offer-0'' # [])"
    by code_simp
  have fresh: "slice_to_minus2 ` set (tokens_of (VStr ''related-1;offer-0'' :: unit val))
               \<inter> (set (columns ?df) - {''categories''}) = {}"
    by code_simp
  have toks: "length (tokens_of (VStr ''related-1;offer-0'' :: unit val)) = 2"
    by code_simp
  from clean_data_column_count [OF ok merged col fresh] ok toks show ?thesis
    by (simp add: columns_def)
qed

section \<open>Tokens that are not numbers\<close>

lemma to_numeric_cells:
  "to_numeric pf xs = Inr ys \<Longrightarrow> x \<in> set xs \<Longrightarrow> \<exists>y. to_numeric_cell pf x = Inr y"
proof (induction xs arbitrary: ys)
  case Nil
  then show ?case by simp
next
  case (Cons a xs)
  then show ?case by (auto split: sum.splits)
qed

lemma convert_columns_cells:
  "convert_columns pf ns cat = Inr cat' \<Longrightarrow> n \<in> set ns \<Longrightarrow>
   \<exists>series nums. getitem cat n = Inr series
     \<and> to_numeric pf (map (str_replace_cell (n @ ''-'') []) series) = Inr nums"
proof (induction ns arbitrary: cat)
  case Nil
  then show ?case by simp
next
  case (Cons column rest)
  from Cons.prems(1) obtain series nums where g: "getitem cat column = Inr series"
    and t: "to_numeric pf (map (str_replace_cell (column @ ''-'') []) series) = Inr nums"
    and r: "convert_columns pf rest (AList.update column nums cat) = Inr cat'"
    by (auto split: sum.splits)
  show ?case
  proof (cases "n = column")
    case True
    with g t show ?thesis by blast
  next
    case False
    with Cons.prems(2) have "n \<in> set rest" by simp
    from Cons.IH [OF r this] False show ?thesis
      by (simp add: getitem_update_other)
  qed
qed

lemma getitem_unique:
  assumes "getitem al k = Inr vs" and "(k, ws) \<in> set al"
  shows "ws = vs"
proof -
  from assms(1) obtain c where f: "filter (\<lambda>c. fst c = k) al = [c]" and vs: "vs = snd c"
    by (auto simp: getitem_def split: list.splits)
  from assms(2) have "(k, ws) \<in> set (filter (\<lambda>c. fst c = k) al)" by simp
  with f have "c = (k, ws)" by simp
  with vs show ?thesis by simp
qed

text \<open>
  Claim C8, as stated, fails. A categories row that matches no message is dropped by the
  merge before its tokens are read, so its token \<open>related-x\<close> raises nothing; and a token
  with nothing after the prefix (\<open>related-\<close>) is converted by \<open>pd.to_numeric\<close> to a
  missing value, not refused.
\<close>

theorem clean_data_bad_token_counterexample:
  "clean_data (\<lambda>_. None :: unit option)
     [(''id'', [VInt 1]), (''message'', [VStr ''a''])]
     [(''id'', [VInt 1, VInt 2]), (''categories'', [VStr ''related-1'', VStr ''related-x''])]
   = Inr [(''id'', [VInt 1]), (''message'', [VStr ''a'']), (''related'', [VInt 1])]
   \<and> clean_data (\<lambda>_. None :: unit option)
     [(''id'', [VInt 1, VInt 2]), (''message'', [VStr ''a'', VStr ''b''])]
     [(''id'', [VInt 1, VInt 2]), (''categories'', [VStr ''related-1'', VStr ''related-''])]
   = Inr [(''id'', [VInt 1, VInt 2]), (''message'', [VStr ''a'', VStr ''b'']),
          (''related'', [VInt 1, VNaN])]"
  by code_simp

text \<open>
  Claim C8, amended. When a row of the merged table has, at a position where the first
  row has a token too, a token that is not empty and not a number once every occurrence of
  the column's name and a hyphen is removed from it (\<open>pd.to_numeric\<close> refuses it), then
  \<open>clean_data\<close> raises and returns no table.
\<close>

theorem clean_data_bad_token_raises:
  assumes merged: "pd_merge messages categories ''id'' = Inr df"
    and col: "getitem df ''categories'' = Inr (first # rest)"
    and row: "cell \<in> set (first # rest)"
    and j: "j < length (tokens_of first)" "j < length (tokens_of cell)"
    and bad: "to_numeric_cell pf
                (VStr (str_replace (slice_to_minus2 (tokens_of first ! j) @ ''-'') []
                         (tokens_of cell ! j)))
              = Inl ValueError"
  shows "isl (clean_data pf messages categories)"
proof (rule ccontr)
  assume "\<not> isl (clean_data pf messages categories)"
  then obtain out where ok: "clean_data pf messages categories = Inr out"
    by (cases "clean_data pf messages categories") auto
  from ok merged col obtain cats where cats: "expand_categories pf (first # rest) = Inr cats"
    by (auto elim!: clean_data_steps)
  then obtain cols rw names where split: "str_split_expand (first # rest) = Inr cols"
    and rw: "iloc0 cols = Inr rw" and names: "new_cat_list rw = Inr names"
    and conv: "convert_columns pf names (zip names cols) = Inr cats"
    by (auto simp: expand_categories_def split: sum.splits)
  note cn = category_names [OF split rw names]
  let ?n = "slice_to_minus2 (tokens_of first ! j)"
  let ?cell = "\<lambda>j ts. if j < length ts then VStr (ts ! j) else VNaN"
  from cn(1) j(1) have nj: "names ! j = ?n" and jn: "j < length names" by simp_all
  from cn(2) j(1) have jc: "j < length cols" by simp
  from jn nj have "?n \<in> set names" by (metis nth_mem)
  from convert_columns_cells [OF conv this] obtain series nums
    where g: "getitem (zip names cols) ?n = Inr series"
      and t: "to_numeric pf (map (str_replace_cell (?n @ ''-'') []) series) = Inr nums"
    by blast
  from jn jc nj have "(?n, cols ! j) \<in> set (zip names cols)"
    by (metis in_set_zip fst_conv snd_conv)
  then have series: "series = cols ! j"
    by (rule getitem_unique [OF g, symmetric])
  have "cols ! j = map (?cell j) (map tokens_of (first # rest))"
    using j(1) by (subst cn(3)) simp
  with row j(2) have "VStr (tokens_of cell ! j) \<in> set series"
    unfolding series by force
  then have "str_replace_cell (?n @ ''-'') [] (VStr (tokens_of cell ! j))
             \<in> set (map (str_replace_cell (?n @ ''-'') []) series)"
    by simp
  from to_numeric_cells [OF t this] bad show False
    by (simp add: str_replace_cell_def)
qed

theorem clean_data_bad_token_raises_witness:
  "to_numeric_cell (\<lambda>_. None :: unit option)
     (VStr (str_replace (slice_to_minus2 (tokens_of (VStr ''related-1'' :: unit val) ! 0) @ ''-'') []
              (tokens_of (VStr ''related-x'' :: unit val) ! 0)))
   = Inl ValueError
   \<and> isl (clean_data (\<lambda>_. None :: unit option)
            [(''id'', [VInt 1, VInt 2]), (''message'', [VStr ''a'', VStr ''b''])]
            [(''id'', [VInt 1, VInt 2]), (''categories'', [VStr ''related-1'', VStr ''related-x''])])"
proof -
  let ?m = "[(''id'', [VInt 1, VInt 2 :: unit val]), (''message'', [VStr ''a'', VStr ''b''])]"
  let ?c = "[(''id'', [VInt 1, VInt 2 :: unit val]),
             (''categories'', [VStr ''related-1'', VStr ''related-x''])]"
  let ?df = "[(''id'', [VInt 1, VInt 2 :: unit val]), (''message'', [VStr ''a'', VStr ''b'']),
              (''categories'', [VStr ''related-1'', VStr ''related-x''])]"
  have merged: "pd_merge ?m ?c ''id'' = Inr ?df"
    by code_simp
  have col: "getitem ?df ''categories'' = Inr (VStr ''related-1'' # [VStr ''related-x''])"
    by code_simp
  have row: "VStr ''related-x'' \<in> set (VStr ''related-1'' # [VStr ''related-x'' :: unit val])"
    by simp
  have j: "0 < length (tokens_of (VStr ''related-1'' :: unit val))"
    "0 < length (tokens_of (VStr ''related-x'' :: unit val))"
    by code_simp+
  have bad: "to_numeric_cell (\<lambda>_. None :: unit option)
     (VStr (str_replace (slice_to_minus2 (tokens_of (VStr ''related-1'' :: unit val) ! 0) @ ''-'') []
              (tokens_of (VStr ''related-x'' :: unit val) ! 0)))
   = Inl ValueError"
    by code_simp
  from clean_data_bad_token_raises [OF merged col row j bad] bad show ?thesis
    by simp
qed

section \<open>The caller's tables\<close>

lemma convert_columns_store_frame:
  "convert_columns_store pf ns r h = (res, h') \<Longrightarrow> \<exists>ob. h' = h[r := ob]"
proof (induction ns arbitrary: h)
  case Nil
  then have "h' = h[r := h ! r]" by (simp add: lift_def)
  then show ?case ..
next
  case (Cons column rest)
  show ?case
  proof (cases "\<exists>cats series nums. named r h = (Inr cats, h) \<and> getitem cats column = Inr series
      \<and> to_numeric pf (map (str_replace_cell (column @ ''-'') []) series) = Inr nums")
    case True
    then obtain cats series nums where "named r h = (Inr cats, h)"
      "getitem cats column = Inr series"
      "to_numeric pf (map (str_replace_cell (column @ ''-'') []) series) = Inr nums"
      by blast
    with Cons.prems have "convert_columns_store pf rest r
        (h[r := Named (AList.update column nums cats)]) = (res, h')"
      by (simp add: then_do_def lift_def put_def)
    from Cons.IH [OF this] show ?thesis by simp
  next
    case False
    with Cons.prems have "h' = h[r := h ! r]"
      by (auto simp: then_do_def lift_def put_def named_def split: sum.splits obj.splits if_splits)
    then show ?thesis ..
  qed
qed

lemma clean_data_store_prefix:
  "take (length h) (snd (clean_data_store pf messages categories h)) = h"
  unfolding clean_data_store_def then_do_def
  by (auto simp: named_def positional_def new_def put_def lift_def nth_append
      split: sum.splits prod.splits obj.splits if_splits
      dest!: convert_columns_store_frame)


lemma convert_columns_store_result:
  "r < length h \<Longrightarrow> h ! r = Named cat \<Longrightarrow>
   (case convert_columns pf ns cat of
      Inl e \<Rightarrow> fst (convert_columns_store pf ns r h) = Inl e
    | Inr cat' \<Rightarrow> convert_columns_store pf ns r h = (Inr (), h[r := Named cat']))"
proof (induction ns arbitrary: h cat)
  case Nil
  then have "h[r := Named cat] = h" by (metis list_update_id)
  then show ?case by (simp add: lift_def)
next
  case (Cons column rest)
  show ?case
  proof (cases "getitem cat column")
    case (Inl e)
    with Cons.prems show ?thesis
      by (simp add: then_do_def named_def lift_def)
  next
    case g: (Inr series)
    show ?thesis
    proof (cases "to_numeric pf (map (str_replace_cell (column @ ''-'') []) series)")
      case (Inl e)
      with g Cons.prems show ?thesis
        by (simp add: then_do_def named_def lift_def)
    next
      case (Inr nums)
      let ?cat = "AList.update column nums cat"
      let ?h = "h[r := Named ?cat]"
      from Cons.prems have "r < length ?h" "?h ! r = Named ?cat" by simp_all
      from Cons.IH [OF this] g Inr Cons.prems show ?thesis
        by (simp add: then_do_def named_def lift_def put_def split: sum.splits)
    qed
  qed
qed

lemma clean_data_store_result:
  assumes "messages < length h" and "categories < length h"
    and "h ! messages = Named m" and "h ! categories = Named c"
  shows "case clean_data pf m c of
           Inl e \<Rightarrow> fst (clean_data_store pf messages categories h) = Inl e
         | Inr out \<Rightarrow> fst (clean_data_store pf messages categories h) = Inr (length h)
                      \<and> snd (clean_data_store pf messages categories h) ! length h = Named out"
proof (cases "pd_merge m c ''id''")
  case (Inl e)
  with assms show ?thesis
    by (simp add: clean_data_def merge_and_expand_def clean_data_store_def then_do_def
        named_def lift_def)
next
  case merged: (Inr df)
  let ?h1 = "h @ [Named df]"
  show ?thesis
  proof (cases "getitem df ''categories''")
    case (Inl e)
    with merged assms show ?thesis
      by (simp add: clean_data_def merge_and_expand_def clean_data_store_def then_do_def
          named_def lift_def new_def nth_append)
  next
    case col: (Inr series)
    show ?thesis
    proof (cases "str_split_expand series")
      case (Inl e)
      with col merged assms show ?thesis
        by (simp add: clean_data_def merge_and_expand_def expand_categories_def
            clean_data_store_def then_do_def named_def lift_def new_def nth_append)
    next
      case split: (Inr cols)
      show ?thesis
      proof (cases "iloc0 cols")
        case (Inl e)
        with split col merged assms show ?thesis
          by (simp add: clean_data_def merge_and_expand_def expand_categories_def
              clean_data_store_def then_do_def named_def positional_def lift_def new_def
              nth_append)
      next
        case row: (Inr rw)
        show ?thesis
        proof (cases "new_cat_list rw")
          case (Inl e)
          with row split col merged assms show ?thesis
            by (simp add: clean_data_def merge_and_expand_def expand_categories_def
                clean_data_store_def then_do_def named_def positional_def lift_def new_def
                nth_append)
        next
          case names: (Inr ns)
          let ?h3 = "h @ [Named df, Named (zip ns cols)]"
          let ?loop = "convert_columns_store pf ns (Suc (length h)) ?h3"
          have r: "Suc (length h) < length ?h3" and at: "?h3 ! Suc (length h) = Named (zip ns cols)"
            by (simp_all add: nth_append)
          note loop = convert_columns_store_result [OF r at, of pf ns]
          have mem: "''categories'' \<in> set (columns df)"
            using getitem_key [OF col] by (simp add: columns_def)
          show ?thesis
          proof (cases "convert_columns pf ns (zip ns cols)")
            case (Inl e)
            with loop obtain h4 where "?loop = (Inl e, h4)"
              by (cases ?loop) auto
            with Inl names row split col merged assms show ?thesis
              by (simp add: clean_data_def merge_and_expand_def expand_categories_def
                  clean_data_store_def then_do_def named_def positional_def lift_def new_def
                  put_def nth_append)
          next
            case (Inr cats)
            with loop have "?loop = (Inr (), ?h3[Suc (length h) := Named cats])"
              by simp
            with Inr mem names row split col merged assms show ?thesis
              by (simp add: clean_data_def merge_and_expand_def expand_categories_def
                  drop_column_def
                  clean_data_store_def then_do_def named_def positional_def lift_def new_def
                  put_def nth_append)
          qed
        qed
      qed
    qed
  qed
qed

text \<open>
  Claim C10. Whatever \<open>clean_data\<close> does, returning a table or raising, the objects the
  caller passed as \<open>messages\<close> and \<open>categories\<close> are afterwards what they were before:
  every change in place is made to the merged frame or to the expanded categories frame,
  both created inside the function.
\<close>

theorem clean_data_store_inputs_unchanged:
  assumes "messages < length h" and "categories < length h"
  shows "snd (clean_data_store pf messages categories h) ! messages = h ! messages
         \<and> snd (clean_data_store pf messages categories h) ! categories = h ! categories"
proof -
  let ?h' = "snd (clean_data_store pf messages categories h)"
  have "\<And>r. r < length h \<Longrightarrow> ?h' ! r = h ! r"
  proof -
    fix r assume r: "r < length h"
    then have "?h' ! r = take (length h) ?h' ! r" by simp
    then show "?h' ! r = h ! r" by (simp only: clean_data_store_prefix)
  qed
  with assms show ?thesis by simp
qed

theorem clean_data_store_inputs_unchanged_witness:
  "clean_data_store (\<lambda>_. None :: unit option) 0 1
     [Named [(''id'', [VInt 1]), (''message'', [VStr ''flood here''])],
      Named [(''id'', [VInt 1]), (''categories'', [VStr ''related-1;offer-0''])]]
   = (Inr 2,
      [Named [(''id'', [VInt 1]), (''message'', [VStr ''flood here''])],
       Named [(''id'', [VInt 1]), (''categories'', [VStr ''related-1;offer-0''])],
       Named [(''id'', [VInt 1]), (''message'', [VStr ''flood here'']),
              (''related'', [VInt 1]), (''offer'', [VInt 0])],
       Named [(''related'', [VInt 1]), (''offer'', [VInt 0])]])
   \<and> snd (clean_data_store (\<lambda>_. None :: unit option) 0 1
        [Named [(''id'', [VInt 1]), (''message'', [VStr ''flood here''])],
         Named [(''id'', [VInt 1]), (''categories'', [VStr ''related-1;offer-0''])]]) ! 0
     = Named [(''id'', [VInt 1]), (''message'', [VStr ''flood here''])]
   \<and> snd (clean_data_store (\<lambda>_. None :: unit option) 0 1
        [Named [(''id'', [VInt 1]), (''message'', [VStr ''flood here''])],
         Named [(''id'', [VInt 1]), (''categories'', [VStr ''related-1;offer-0''])]]) ! 1
     = Named [(''id'', [VInt 1]), (''categories'', [VStr ''related-1;offer-0''])]"
proof -
  let ?h = "[Named [(''id'', [VInt 1 :: unit val]), (''message'', [VStr ''flood here''])],
             Named [(''id'', [VInt 1]), (''categories'', [VStr ''related-1;offer-0''])]]"
  have run: "clean_data_store (\<lambda>_. None :: unit option) 0 1 ?h
     = (Inr 2,
        [Named [(''id'', [VInt 1]), (''message'', [VStr ''flood here''])],
         Named [(''id'', [VInt 1]), (''categories'', [VStr ''related-1;offer-0''])],
         Named [(''id'', [VInt 1]), (''message'', [VStr ''flood here'']),
                (''related'', [VInt 1]), (''offer'', [VInt 0])],
         Named [(''related'', [VInt 1]), (''offer'', [VInt 0])]])"
    by code_simp
  have len: "0 < length ?h" "1 < length ?h" by simp_all
  from clean_data_store_inputs_unchanged [OF len, of "\<lambda>_. None :: unit option"] run
  show ?thesis by simp
qed

end
